theory Spec2Isabelle
  imports Complex_Main
begin

section \<open>Values thrown and effects observed\<close>

text \<open>
  The service module (\<^verbatim>\<open>services/geminiService\<close>) throws and catches JavaScript error
  objects and reads three of their properties: \<^verbatim>\<open>status\<close>, \<^verbatim>\<open>code\<close> and \<^verbatim>\<open>message\<close>.
  A property that is absent (\<^verbatim>\<open>undefined\<close>) is \<open>None\<close>; an absent message is the empty
  string, which JavaScript treats as falsy just like \<^verbatim>\<open>undefined\<close>.
\<close>

record js_error =
  status :: "int option"
  code :: "int option"
  message :: string

text \<open>\<^verbatim>\<open>new Error(msg)\<close>: an error object that carries a message and nothing else.\<close>

definition new_Error :: "string \<Rightarrow> js_error" where
  "new_Error msg = \<lparr>status = None, code = None, message = msg\<rparr>"

text \<open>
  What a run does besides returning: it invokes a remote operation (\<open>Invoke\<close>, one per
  call of the closure handed to the retrier), it calls \<^verbatim>\<open>onProgress\<close> with a message, and it
  sleeps for a number of milliseconds. Every function below returns the list of its
  effects in the order in which they happen. Delays are rational numbers: the products
  \<^verbatim>\<open>baseDelay * Math.pow(1.5, attempt)\<close> of the three call sites are exact in double
  precision, so the model loses nothing there; the recovery delay of the polling loop,
  \<^verbatim>\<open>3000 * Math.pow(1.3, n)\<close>, is taken exactly, where the source rounds it to a double,
  and no statement below depends on its value. Calls of \<^verbatim>\<open>console.warn\<close> and
  \<^verbatim>\<open>console.error\<close> are not recorded. Message texts are kept without the pictograph the
  source puts in front of each of them.
\<close>

datatype effect = Invoke | Progress string | Sleep rat

section \<open>Printing numbers\<close>

text \<open>Template literals print numbers in decimal.\<close>

definition digit_char :: "nat \<Rightarrow> char" where
  "digit_char d = ''0123456789'' ! d"

fun show_nat :: "nat \<Rightarrow> string" where
  "show_nat n = (if n < 10 then [digit_char n] else show_nat (n div 10) @ [digit_char (n mod 10)])"

declare show_nat.simps [simp del]

definition show_int :: "int \<Rightarrow> string" where
  "show_int i = (if i < 0 then CHR ''-'' # show_nat (nat (- i)) else show_nat (nat i))"

text \<open>\<^verbatim>\<open>Math.round\<close>: the nearest integer, halves rounded up.\<close>

definition js_round :: "rat \<Rightarrow> int" where
  "js_round x = \<lfloor>x + 1 / 2\<rfloor>"

section \<open>The retrier\<close>

text \<open>
  \<^verbatim>\<open>retryWithBackoff(fn, maxRetries, baseDelay)\<close>. The closure \<^verbatim>\<open>fn\<close> is given by the
  outcome of each of its invocations: \<open>fn i\<close> is what its invocation in attempt \<open>i\<close>
  returns (\<open>Inr\<close>) or throws (\<open>Inl\<close>). The loop
  \<^verbatim>\<open>for (let attempt = 0; attempt <= maxRetries; attempt++)\<close> is the recursion on
  \<open>attempt\<close>; \<^verbatim>\<open>maxRetries\<close> is a natural number (the call sites pass 8, 5 and 5), so
  the statement \<^verbatim>\<open>throw lastError!\<close> after the loop is the last branch, reached only
  when the recursion is entered beyond \<open>maxRetries\<close>, which \<open>retryWithBackoff\<close> never
  does. The variable \<^verbatim>\<open>lastError\<close> is unassigned (\<open>None\<close>) until the first failure; in that
  unreachable case the branch throws \<^verbatim>\<open>undefined\<close>, written here as an error object without
  any property.
\<close>

definition retry_message :: "nat \<Rightarrow> nat \<Rightarrow> rat \<Rightarrow> string" where
  "retry_message attempt maxRetries delay =
     ''Service unavailable (attempt '' @ show_nat (attempt + 1) @ ''/'' @ show_nat (maxRetries + 1)
       @ ''), retrying in '' @ show_int (js_round (delay / 1000)) @ ''s...''"

function retry_loop ::
  "(nat \<Rightarrow> js_error + 'a) \<Rightarrow> nat \<Rightarrow> rat \<Rightarrow> nat \<Rightarrow> js_error option \<Rightarrow> (js_error + 'a) \<times> effect list"
where
  "retry_loop fn maxRetries baseDelay attempt lastError =
     (if attempt \<le> maxRetries then
        (case fn attempt of
           Inr v \<Rightarrow> (Inr v, [Invoke])
         | Inl error \<Rightarrow>
             if status error = Some 400 \<or> status error = Some 401 \<or> status error = Some 403
             then (Inl error, [Invoke])
             else if attempt = maxRetries
             then (Inl error, [Invoke])
             else
               let delay = baseDelay * (3 / 2) ^ attempt;
                   (r, effs) = retry_loop fn maxRetries baseDelay (attempt + 1) (Some error)
               in (r, [Invoke, Progress (retry_message attempt maxRetries delay), Sleep delay] @ effs))
      else (Inl (case lastError of Some error \<Rightarrow> error | None \<Rightarrow> new_Error []), []))"
  by pat_completeness auto
termination
  by (relation "measure (\<lambda>(fn, maxRetries, baseDelay, attempt, lastError). Suc maxRetries - attempt)") auto

declare retry_loop.simps [simp del]

definition retryWithBackoff :: "(nat \<Rightarrow> js_error + 'a) \<Rightarrow> nat \<Rightarrow> rat \<Rightarrow> (js_error + 'a) \<times> effect list" where
  "retryWithBackoff fn maxRetries baseDelay = retry_loop fn maxRetries baseDelay 0 None"

text \<open>The number of invocations of the closure in a list of effects, and the delays slept.\<close>

definition attempts :: "effect list \<Rightarrow> nat" where
  "attempts effs = length (filter (\<lambda>e. e = Invoke) effs)"

fun delays :: "effect list \<Rightarrow> rat list" where
  "delays [] = []"
| "delays (Sleep d # effs) = d # delays effs"
| "delays (_ # effs) = delays effs"

definition nonRetryable :: "js_error \<Rightarrow> bool" where
  "nonRetryable error \<longleftrightarrow> status error = Some 400 \<or> status error = Some 401 \<or> status error = Some 403"

section \<open>The remote service\<close>

text \<open>
  The status of a remote operation as the executor reads it: \<^verbatim>\<open>operation.done\<close> and
  \<^verbatim>\<open>operation.response?.generatedVideos\<close> (\<open>None\<close> when the response or the list is
  absent); of a generated video, \<^verbatim>\<open>videoData.video?.uri\<close>; of the response of \<^verbatim>\<open>fetch\<close>,
  \<^verbatim>\<open>ok\<close>, \<^verbatim>\<open>status\<close>, \<^verbatim>\<open>statusText\<close> and the outcome of \<^verbatim>\<open>blob()\<close>, where the string
  stands for the object URL that \<^verbatim>\<open>URL.createObjectURL\<close> makes of the blob.
\<close>

record generated_video =
  uri :: "string option"

record operation =
  op_done :: bool
  generatedVideos :: "generated_video list option"

record response =
  ok :: bool
  res_status :: nat
  statusText :: string
  blob :: "js_error + string"

text \<open>
  The executor is deterministic, so the remote service is given by its answers:
  \<open>generateVideos env a\<close> answers the submission in attempt \<open>a\<close> of its retrier,
  \<open>getVideosOperation env i a\<close> answers the status request of poll iteration \<open>i\<close>
  (the value of \<^verbatim>\<open>pollAttempts\<close> in that iteration, from 1) in attempt \<open>a\<close>, and
  \<open>fetch env index a\<close> answers the download of the video at position \<open>index\<close> in attempt
  \<open>a\<close>. Every request is answered: a request that never settles is outside the model.
\<close>

record remote =
  generateVideos :: "nat \<Rightarrow> js_error + operation"
  getVideosOperation :: "nat \<Rightarrow> nat \<Rightarrow> js_error + operation"
  fetch :: "nat \<Rightarrow> nat \<Rightarrow> js_error + response"

section \<open>The executor\<close>

definition progressMessages :: "string list" where
  "progressMessages =
     [''Analyzing your prompt...'',
      ''Storyboarding the scenes...'',
      ''Rendering frames with correct aspect ratio...'',
      ''Adding final touches...'',
      ''Almost there...'']"

definition maxPollAttempts :: nat where
  "maxPollAttempts = 100"

definition unavailable_notice :: string where
  "unavailable_notice = ''Service temporarily unavailable, retrying with backoff...''"

text \<open>
  The \<^verbatim>\<open>while\<close> loop of \<^verbatim>\<open>executeGeneration\<close>. It returns how it ends (the operation it
  leaves the loop with, or the error it throws), the values of \<^verbatim>\<open>pollAttempts\<close> and
  \<^verbatim>\<open>messageIndex\<close> at that moment, and its effects.
\<close>

function poll_loop ::
  "remote \<Rightarrow> operation \<Rightarrow> nat \<Rightarrow> nat \<Rightarrow> (js_error + operation) \<times> nat \<times> nat \<times> effect list"
where
  "poll_loop env operation pollAttempts messageIndex =
     (if \<not> op_done operation \<and> pollAttempts < maxPollAttempts then
        let pollAttempts' = pollAttempts + 1;
            (messageIndex', shown) =
               (if messageIndex < length progressMessages
                then (messageIndex + 1, [Progress (progressMessages ! messageIndex)])
                else (messageIndex, []));
            (polled, effs) = retryWithBackoff (getVideosOperation env pollAttempts') 5 3000
        in (case polled of
              Inr operation' \<Rightarrow>
                let (r, pa, mi, rest) = poll_loop env operation' pollAttempts' messageIndex'
                in (r, pa, mi, [Sleep 15000] @ shown @ effs @ rest)
            | Inl error \<Rightarrow>
                if status error = Some 503 \<or> code error = Some 503 then
                  let (r, pa, mi, rest) = poll_loop env operation pollAttempts' messageIndex'
                  in (r, pa, mi,
                      [Sleep 15000] @ shown @ effs
                        @ [Progress unavailable_notice,
                           Sleep (min (3000 * (13 / 10) ^ (pollAttempts' mod 10)) 30000)]
                        @ rest)
                else if status error \<noteq> Some 503 \<and> code error \<noteq> Some 503 then
                  (Inl error, pollAttempts', messageIndex', [Sleep 15000] @ shown @ effs)
                else
                  let (r, pa, mi, rest) = poll_loop env operation pollAttempts' messageIndex'
                  in (r, pa, mi, [Sleep 15000] @ shown @ effs @ rest))
      else (Inr operation, pollAttempts, messageIndex, []))"
  by pat_completeness auto
termination
  by (relation "measure (\<lambda>(env, operation, pollAttempts, messageIndex). maxPollAttempts - pollAttempts)")
    auto

declare poll_loop.simps [simp del]

definition timeout_message :: string where
  "timeout_message =
     ''Video generation timed out after 25 minutes. The service may be experiencing high load. Please try again later.''"

definition no_videos_message :: string where
  "no_videos_message = ''Video generation failed or returned no videos.''"

definition all_failed_message :: string where
  "all_failed_message = ''All video downloads failed. Please try again.''"

text \<open>The closure that the download retrier runs for the video at position \<open>index\<close>.\<close>

definition fetch_video :: "remote \<Rightarrow> nat \<Rightarrow> nat \<Rightarrow> js_error + response" where
  "fetch_video env index attempt =
     (case fetch env index attempt of
        Inl error \<Rightarrow> Inl error
      | Inr res \<Rightarrow>
          if \<not> ok res
          then Inl (new_Error (''Failed to download video '' @ show_nat (index + 1) @ '': ''
                                @ show_nat (res_status res) @ '' '' @ statusText res))
          else Inr res)"

text \<open>
  One element of \<^verbatim>\<open>downloadPromises\<close>: \<open>Inr None\<close> is the promise that resolves to
  \<^verbatim>\<open>null\<close>, \<open>Inl\<close> the promise that rejects. An empty link is falsy like an absent one.
\<close>

definition download :: "remote \<Rightarrow> nat \<Rightarrow> generated_video \<Rightarrow> (js_error + string option) \<times> effect list" where
  "download env index videoData =
     (case uri videoData of
        None \<Rightarrow> (Inr None, [])
      | Some downloadLink \<Rightarrow>
          if downloadLink = [] then (Inr None, [])
          else
            (case retryWithBackoff (fetch_video env index) 5 2000 of
               (Inl error, effs) \<Rightarrow> (Inl error, effs)
             | (Inr res, effs) \<Rightarrow>
                 (case blob res of
                    Inl error \<Rightarrow> (Inl error, effs)
                  | Inr url \<Rightarrow> (Inr (Some url), effs))))"

text \<open>
  \<^verbatim>\<open>Promise.all(downloadPromises)\<close>: it resolves to the list of all results when every
  promise resolves and rejects as soon as one rejects. The downloads run concurrently;
  the model runs them one after the other in the order of the list, which fixes one
  interleaving of their effects and, when several reject, reports the rejection of the
  first position. Whether \<^verbatim>\<open>Promise.all\<close> resolves or rejects does not depend on the
  interleaving.
\<close>

fun download_all :: "remote \<Rightarrow> nat \<Rightarrow> generated_video list \<Rightarrow> (js_error + string option list) \<times> effect list" where
  "download_all env index [] = (Inr [], [])"
| "download_all env index (videoData # rest) =
     (let (r, effs) = download env index videoData;
          (rs, effs') = download_all env (index + 1) rest
      in (case r of
            Inl error \<Rightarrow> Inl error
          | Inr url \<Rightarrow> (case rs of Inl error \<Rightarrow> Inl error | Inr urls \<Rightarrow> Inr (url # urls)),
          effs @ effs'))"

text \<open>The statements of the \<^verbatim>\<open>try\<close> block after the polling loop.\<close>

definition after_polling :: "remote \<Rightarrow> operation \<Rightarrow> nat \<Rightarrow> (js_error + string list) \<times> effect list" where
  "after_polling env operation pollAttempts =
     (if pollAttempts \<ge> maxPollAttempts then (Inl (new_Error timeout_message), [])
      else
        (case generatedVideos operation of
           None \<Rightarrow> (Inl (new_Error no_videos_message), [])
         | Some videos \<Rightarrow>
             if length videos = 0 then (Inl (new_Error no_videos_message), [])
             else
               let announce = Progress (''Downloading '' @ show_nat (length videos) @ '' generated video(s)...'');
                   (r, effs) = download_all env 0 videos
               in (case r of
                     Inl error \<Rightarrow> (Inl error, announce # effs)
                   | Inr urls \<Rightarrow>
                       let videoUrls = map the (filter (\<lambda>url. url \<noteq> None) urls)
                       in if length videoUrls = 0
                          then (Inl (new_Error all_failed_message), announce # effs)
                          else (Inr videoUrls,
                                announce # effs
                                  @ [Progress (''Video generation completed! Generated ''
                                       @ show_nat (length videoUrls) @ '' video(s).'')]))))"

text \<open>
  The \<^verbatim>\<open>try\<close> block. The reference image is given by the outcome of reading it
  (\<^verbatim>\<open>fileToBase64\<close>): \<open>None\<close> when the job has no image, \<open>Some (Inl error)\<close> when the
  reader fails. The request payload is built from the prompt, the options and the image and
  only travels to the remote service, whose answers are given by \<open>env\<close>.
\<close>

definition try_block :: "remote \<Rightarrow> (js_error + string) option \<Rightarrow> (js_error + string list) \<times> effect list" where
  "try_block env imageFile =
     (let init = [Progress ''Initializing Veo 3 model...''];
          (image, effs_image) =
             (case imageFile of
                None \<Rightarrow> (Inr None, [])
              | Some reading \<Rightarrow>
                  (case reading of
                     Inl error \<Rightarrow> (Inl error, [Progress ''Processing reference image...''])
                   | Inr base64Image \<Rightarrow> (Inr (Some base64Image), [Progress ''Processing reference image...''])))
      in (case image of
            Inl error \<Rightarrow> (Inl error, init @ effs_image)
          | Inr _ \<Rightarrow>
              let sending = [Progress ''Sending request to Google Veo 3 API...''];
                  (submitted, effs_submit) = retryWithBackoff (generateVideos env) 8 5000
              in (case submitted of
                    Inl error \<Rightarrow> (Inl error, init @ effs_image @ sending @ effs_submit)
                  | Inr operation \<Rightarrow>
                      let first = [Progress (progressMessages ! 0)];
                          (polled, pollAttempts, messageIndex, effs_poll) = poll_loop env operation 0 1
                      in (case polled of
                            Inl error \<Rightarrow>
                              (Inl error, init @ effs_image @ sending @ effs_submit @ first @ effs_poll)
                          | Inr operation' \<Rightarrow>
                              let (r, effs_rest) = after_polling env operation' pollAttempts
                              in (r, init @ effs_image @ sending @ effs_submit @ first @ effs_poll @ effs_rest)))))"

text \<open>\<^verbatim>\<open>String.prototype.includes\<close>.\<close>

fun starts_with :: "string \<Rightarrow> string \<Rightarrow> bool" where
  "starts_with _ [] = True"
| "starts_with [] (_ # _) = False"
| "starts_with (c # cs) (p # ps) = (c = p \<and> starts_with cs ps)"

fun js_includes :: "string \<Rightarrow> string \<Rightarrow> bool" where
  "js_includes [] pat = (pat = [])"
| "js_includes (c # cs) pat = (starts_with (c # cs) pat \<or> js_includes cs pat)"

text \<open>The \<^verbatim>\<open>catch\<close> block: every error leaves the executor as a new error with a message.\<close>

definition catch_block :: "js_error \<Rightarrow> js_error" where
  "catch_block error =
     (if status error = Some 503 \<or> code error = Some 503 then
        new_Error ''Google Veo 3 service is currently unavailable. Your request is queued and will retry automatically with intelligent backoff.''
      else if status error = Some 429 then
        new_Error ''Rate limit exceeded. Your request is queued and will retry automatically.''
      else if status error = Some 401 then
        new_Error ''Invalid API key. Please check your Google AI API key.''
      else if status error = Some 403 then
        new_Error ''Access denied. Please check if your API key has access to Veo 3.''
      else if js_includes (message error) ''timeout'' then
        new_Error ''Request timed out. The service may be experiencing high load.''
      else new_Error (if message error \<noteq> [] then message error else ''Failed to generate video''))"

definition executeGeneration :: "remote \<Rightarrow> (js_error + string) option \<Rightarrow> (js_error + string list) \<times> effect list" where
  "executeGeneration env imageFile =
     (case try_block env imageFile of
        (Inl error, effs) \<Rightarrow> (Inl (catch_block error), effs)
      | (Inr videoUrls, effs) \<Rightarrow> (Inr videoUrls, effs))"

section \<open>The queue\<close>

text \<open>
  \<^verbatim>\<open>class VideoGenerationQueue\<close>. A \<^verbatim>\<open>QueueItem\<close> is represented by its \<^verbatim>\<open>id\<close>; its
  closures appear through what they do: a call of \<^verbatim>\<open>onProgress\<close>, \<^verbatim>\<open>resolve\<close> or
  \<^verbatim>\<open>reject\<close> of an item is a \<open>notice\<close> carrying the item and the numbers it is told.
  JavaScript runs one piece of code at a time, so the state changes in steps:
  \<^item> a call of \<^verbatim>\<open>add\<close>, which runs up to and including its call of \<^verbatim>\<open>processQueue\<close>;
  \<^item> \<^verbatim>\<open>processQueue\<close> up to \<^verbatim>\<open>await item.execute()\<close>, where it suspends; the suspended
    invocations are the list \<open>awaiting\<close>;
  \<^item> the rest of a suspended \<^verbatim>\<open>processQueue\<close> once the execution of its item has settled:
    \<^verbatim>\<open>resolve\<close> or \<^verbatim>\<open>reject\<close>, then the \<^verbatim>\<open>finally\<close> block, which leaves a timer behind;
  \<^item> a timer that fires and calls \<^verbatim>\<open>processQueue\<close>.
  The identifier of an item is drawn in \<^verbatim>\<open>add\<close> from the clock and a random number, so it
  is an argument of \<open>add\<close> here.
\<close>

datatype notice =
    Queued string nat nat nat
  | Starting string nat nat
  | Resolved string "string list"
  | Rejected string js_error

record scheduler =
  queue :: "string list"
  running :: "string set"
  maxConcurrent :: nat
  awaiting :: "string list"
  timers :: nat
  notices :: "notice list"

definition initial :: "nat \<Rightarrow> scheduler" where
  "initial limit =
     \<lparr>queue = [], running = {}, maxConcurrent = limit, awaiting = [], timers = 0, notices = []\<rparr>"

definition processQueue :: "scheduler \<Rightarrow> scheduler" where
  "processQueue s =
     (if card (running s) \<ge> maxConcurrent s \<or> length (queue s) = 0 then s
      else
        (case queue s of
           [] \<Rightarrow> s
         | item # rest \<Rightarrow>
             s\<lparr>queue := rest,
               running := insert item (running s),
               awaiting := awaiting s @ [item],
               notices := notices s @ [Starting item (card (insert item (running s))) (maxConcurrent s)]\<rparr>))"

definition add :: "string \<Rightarrow> scheduler \<Rightarrow> scheduler" where
  "add item s =
     processQueue
       (s\<lparr>queue := queue s @ [item],
          notices := notices s @ [Queued item (length (queue s @ [item])) (card (running s)) (maxConcurrent s)]\<rparr>)"

definition settle :: "string \<Rightarrow> js_error + string list \<Rightarrow> scheduler \<Rightarrow> scheduler" where
  "settle item outcome s =
     (if item \<in> set (awaiting s) then
        s\<lparr>notices := notices s @ [case outcome of Inr result \<Rightarrow> Resolved item result | Inl error \<Rightarrow> Rejected item error],
          running := running s - {item},
          awaiting := remove1 item (awaiting s),
          timers := timers s + 1\<rparr>
      else s)"

definition timer_fires :: "scheduler \<Rightarrow> scheduler" where
  "timer_fires s = (if timers s = 0 then s else processQueue (s\<lparr>timers := timers s - 1\<rparr>))"

definition getQueueStatus :: "scheduler \<Rightarrow> nat \<times> nat \<times> nat" where
  "getQueueStatus s = (length (queue s), card (running s), maxConcurrent s)"

datatype event = Add string | Settle string "js_error + string list" | Timer

fun step :: "scheduler \<Rightarrow> event \<Rightarrow> scheduler" where
  "step s (Add item) = add item s"
| "step s (Settle item outcome) = settle item outcome s"
| "step s Timer = timer_fires s"

definition run :: "event list \<Rightarrow> scheduler \<Rightarrow> scheduler" where
  "run evs s = foldl step s evs"

text \<open>The items admitted so far and the items started so far, each in the order it happened.\<close>

fun admitted_in :: "notice list \<Rightarrow> string list" where
  "admitted_in [] = []"
| "admitted_in (Queued item _ _ _ # ns) = item # admitted_in ns"
| "admitted_in (_ # ns) = admitted_in ns"

fun started_in :: "notice list \<Rightarrow> string list" where
  "started_in [] = []"
| "started_in (Starting item _ _ # ns) = item # started_in ns"
| "started_in (_ # ns) = started_in ns"

definition admitted :: "scheduler \<Rightarrow> string list" where
  "admitted s = admitted_in (notices s)"

definition started :: "scheduler \<Rightarrow> string list" where
  "started s = started_in (notices s)"

section \<open>The host application's job list\<close>

text \<open>
  \<^verbatim>\<open>App.tsx\<close> keeps the jobs it displays in its own list and shares the one queue of the
  service module. \<^verbatim>\<open>handleDeleteJob\<close> is the only code that takes a job away.
\<close>

datatype job_status = Loading | Success | Failure

record job =
  job_id :: nat
  job_status :: job_status
  job_message :: string

record app =
  jobs :: "job list"
  videoQueue :: scheduler

definition handleDeleteJob :: "nat \<Rightarrow> app \<Rightarrow> app" where
  "handleDeleteJob jobId a = a\<lparr>jobs := filter (\<lambda>job. job_id job \<noteq> jobId) (jobs a)\<rparr>"

section \<open>Auxiliary notions for the statements\<close>

text \<open>
  The effects of the attempts \<open>a\<close>, ..., \<open>k - 1\<close> of a retrier when each of them fails and
  is followed by a retry.
\<close>

definition backoff_effects :: "nat \<Rightarrow> rat \<Rightarrow> nat \<Rightarrow> nat \<Rightarrow> effect list" where
  "backoff_effects maxRetries baseDelay a k =
     concat (map (\<lambda>i. [Invoke, Progress (retry_message i maxRetries (baseDelay * (3 / 2) ^ i)),
                        Sleep (baseDelay * (3 / 2) ^ i)]) [a..<k])"

text \<open>The bound that the queue keeps on its set of running items.\<close>

definition within_limit :: "scheduler \<Rightarrow> bool" where
  "within_limit s \<longleftrightarrow> finite (running s) \<and> card (running s) \<le> maxConcurrent s"

text \<open>The items started between a state and a later state.\<close>

definition started_after :: "scheduler \<Rightarrow> scheduler \<Rightarrow> string list" where
  "started_after s s' = drop (length (started s)) (started s')"

text \<open>
  Poll iteration \<open>i\<close> of the executor: the status request under the retrier's policy for
  polling. \<open>shown\<close> and \<open>next_index\<close> are what an iteration does with the stage messages.
  An error is \<open>transient\<close> for the polling loop when its status or its code is 503. An
  iteration is \<open>quiet\<close> when it neither reports that the operation is done nor fails with an
  error that the loop rethrows.
\<close>

definition poll :: "remote \<Rightarrow> nat \<Rightarrow> (js_error + operation) \<times> effect list" where
  "poll env i = retryWithBackoff (getVideosOperation env i) 5 3000"

definition shown :: "nat \<Rightarrow> effect list" where
  "shown messageIndex =
     (if messageIndex < length progressMessages then [Progress (progressMessages ! messageIndex)] else [])"

definition next_index :: "nat \<Rightarrow> nat" where
  "next_index messageIndex = (if messageIndex < length progressMessages then messageIndex + 1 else messageIndex)"

definition transient :: "js_error \<Rightarrow> bool" where
  "transient error \<longleftrightarrow> status error = Some 503 \<or> code error = Some 503"

definition backoff_notice :: "nat \<Rightarrow> effect list" where
  "backoff_notice pollAttempts =
     [Progress unavailable_notice, Sleep (min (3000 * (13 / 10) ^ (pollAttempts mod 10)) 30000)]"

definition quiet :: "remote \<Rightarrow> nat \<Rightarrow> bool" where
  "quiet env i = (case fst (poll env i) of Inr operation \<Rightarrow> \<not> op_done operation | Inl error \<Rightarrow> transient error)"

definition readable :: "(js_error + string) option \<Rightarrow> bool" where
  "readable imageFile = (case imageFile of Some (Inl error) \<Rightarrow> False | _ \<Rightarrow> True)"

text \<open>
  The messages passed to \<^verbatim>\<open>onProgress\<close> in a list of effects, and those among them that
  belong to the fixed list of stage messages.
\<close>

fun messages :: "effect list \<Rightarrow> string list" where
  "messages [] = []"
| "messages (Progress m # effs) = m # messages effs"
| "messages (_ # effs) = messages effs"

definition stage_messages :: "effect list \<Rightarrow> string list" where
  "stage_messages effs = filter (\<lambda>m. m \<in> set progressMessages) (messages effs)"

text \<open>Remote services and answers used in the examples.\<close>

definition processing :: operation where
  "processing = \<lparr>op_done = False, generatedVideos = None\<rparr>"

definition finished :: "generated_video list option \<Rightarrow> operation" where
  "finished videos = \<lparr>op_done = True, generatedVideos = videos\<rparr>"

definition unavailable :: js_error where
  "unavailable = \<lparr>status = Some 503, code = None, message = ''The service is currently unavailable.''\<rparr>"

definition service_done_at :: "nat \<Rightarrow> operation \<Rightarrow> (nat \<Rightarrow> nat \<Rightarrow> js_error + response) \<Rightarrow> remote" where
  "service_done_at n operation fetcher =
     \<lparr>generateVideos = (\<lambda>a. Inr processing),
      getVideosOperation = (\<lambda>i a. if i < n then Inr processing else Inr operation),
      fetch = fetcher\<rparr>"



definition delivers :: "string \<Rightarrow> js_error + response" where
  "delivers url = Inr \<lparr>ok = True, res_status = 200, statusText = ''OK'', blob = Inr url\<rparr>"

definition server_error :: "js_error + response" where
  "server_error = Inr \<lparr>ok = False, res_status = 500, statusText = ''Internal Server Error'', blob = Inr []\<rparr>"

definition three_videos :: "string option \<Rightarrow> generated_video list" where
  "three_videos second = [\<lparr>uri = Some ''link1''\<rparr>, \<lparr>uri = second\<rparr>, \<lparr>uri = Some ''link3''\<rparr>]"

definition second_fails :: "nat \<Rightarrow> nat \<Rightarrow> js_error + response" where
  "second_fails index a =
     (if index = 1 then server_error
      else delivers (if index = 0 then ''ref1-content'' else ''ref3-content''))"

section \<open>Properties of the retrier\<close>

lemma retry_loop_returns:
  "attempt \<le> maxRetries \<Longrightarrow> fn attempt = Inr v \<Longrightarrow>
   retry_loop fn maxRetries baseDelay attempt lastError = (Inr v, [Invoke])"
  by (subst retry_loop.simps) simp

lemma retry_loop_gives_up:
  "attempt \<le> maxRetries \<Longrightarrow> fn attempt = Inl error \<Longrightarrow> nonRetryable error \<Longrightarrow>
   retry_loop fn maxRetries baseDelay attempt lastError = (Inl error, [Invoke])"
  by (subst retry_loop.simps) (simp add: nonRetryable_def)

lemma retry_loop_last:
  "fn maxRetries = Inl error \<Longrightarrow>
   retry_loop fn maxRetries baseDelay maxRetries lastError = (Inl error, [Invoke])"
  by (subst retry_loop.simps) simp

lemma retry_loop_again:
  "attempt < maxRetries \<Longrightarrow> fn attempt = Inl error \<Longrightarrow> \<not> nonRetryable error \<Longrightarrow>
   retry_loop fn maxRetries baseDelay attempt lastError =
     (fst (retry_loop fn maxRetries baseDelay (Suc attempt) (Some error)),
      [Invoke, Progress (retry_message attempt maxRetries (baseDelay * (3 / 2) ^ attempt)),
       Sleep (baseDelay * (3 / 2) ^ attempt)]
        @ snd (retry_loop fn maxRetries baseDelay (Suc attempt) (Some error)))"
  by (subst retry_loop.simps) (simp add: nonRetryable_def Let_def split: prod.splits)

lemma backoff_effects_empty: "backoff_effects maxRetries baseDelay a a = []"
  by (simp add: backoff_effects_def)

lemma backoff_effects_step:
  "a < k \<Longrightarrow> backoff_effects maxRetries baseDelay a k =
     [Invoke, Progress (retry_message a maxRetries (baseDelay * (3 / 2) ^ a)), Sleep (baseDelay * (3 / 2) ^ a)]
       @ backoff_effects maxRetries baseDelay (Suc a) k"
  by (simp add: backoff_effects_def upt_conv_Cons)

lemma retry_loop_succeeds:
  assumes "a \<le> k" "k \<le> maxRetries"
    and "\<forall>i. a \<le> i \<and> i < k \<longrightarrow> (\<exists>error. fn i = Inl error \<and> \<not> nonRetryable error)"
    and "fn k = Inr v"
  shows "retry_loop fn maxRetries baseDelay a lastError = (Inr v, backoff_effects maxRetries baseDelay a k @ [Invoke])"
  using assms
proof (induction "k - a" arbitrary: a lastError)
  case 0
  then have "a = k" by simp
  with 0 show ?case by (simp add: retry_loop_returns backoff_effects_empty)
next
  case (Suc d)
  then have lt: "a < k" by simp
  with Suc.prems obtain error where e: "fn a = Inl error" "\<not> nonRetryable error" by auto
  have ih: "retry_loop fn maxRetries baseDelay (Suc a) (Some error) =
      (Inr v, backoff_effects maxRetries baseDelay (Suc a) k @ [Invoke])"
    using Suc.hyps Suc.prems lt by (intro Suc.hyps(1)) auto
  from lt Suc.prems have "a < maxRetries" by simp
  then show ?case
    using e ih by (simp add: retry_loop_again [where fn = fn and error = error] backoff_effects_step [OF lt])
qed

lemma retry_loop_exhausts:
  assumes "a \<le> maxRetries"
    and "\<forall>i. a \<le> i \<and> i < maxRetries \<longrightarrow> (\<exists>error. fn i = Inl error \<and> \<not> nonRetryable error)"
    and "fn maxRetries = Inl error"
  shows "retry_loop fn maxRetries baseDelay a lastError =
           (Inl error, backoff_effects maxRetries baseDelay a maxRetries @ [Invoke])"
  using assms
proof (induction "maxRetries - a" arbitrary: a lastError)
  case 0
  then have "a = maxRetries" by simp
  with 0 show ?case by (simp add: retry_loop_last backoff_effects_empty)
next
  case (Suc d)
  then have lt: "a < maxRetries" by simp
  with Suc.prems obtain e where e: "fn a = Inl e" "\<not> nonRetryable e" by auto
  have ih: "retry_loop fn maxRetries baseDelay (Suc a) (Some e) =
      (Inl error, backoff_effects maxRetries baseDelay (Suc a) maxRetries @ [Invoke])"
    using Suc.hyps Suc.prems lt by (intro Suc.hyps(1)) auto
  show ?case
    using lt e ih by (simp add: retry_loop_again [where fn = fn and error = e] backoff_effects_step [OF lt])
qed

lemma attempts_backoff_effects:
  "attempts (backoff_effects maxRetries baseDelay a k @ [Invoke]) = Suc (k - a)"
proof (induction "k - a" arbitrary: a)
  case 0
  then show ?case by (simp add: backoff_effects_def attempts_def)
next
  case (Suc d)
  then have lt: "a < k" by simp
  have "attempts (backoff_effects maxRetries baseDelay (Suc a) k @ [Invoke]) = Suc (k - Suc a)"
    using Suc by (intro Suc.hyps(1)) simp
  with lt show ?case
    by (simp add: backoff_effects_step [OF lt] attempts_def)
qed

lemma delays_backoff_effects:
  "delays (backoff_effects maxRetries baseDelay a k @ [Invoke]) = map (\<lambda>i. baseDelay * (3 / 2) ^ i) [a..<k]"
proof (induction "k - a" arbitrary: a)
  case 0
  then show ?case by (simp add: backoff_effects_def)
next
  case (Suc d)
  then have lt: "a < k" by simp
  have "delays (backoff_effects maxRetries baseDelay (Suc a) k @ [Invoke]) = map (\<lambda>i. baseDelay * (3 / 2) ^ i) [Suc a..<k]"
    using Suc by (intro Suc.hyps(1)) simp
  with lt show ?case
    by (simp add: backoff_effects_step [OF lt] upt_conv_Cons)
qed

lemma growing_delays:
  assumes "0 < (baseDelay :: rat)"
  shows "sorted_wrt (<) (map (\<lambda>i. baseDelay * (3 / 2) ^ i) [a..<k])"
proof -
  have "(3 / 2 :: rat) ^ i < (3 / 2) ^ j" if "i < j" for i j :: nat
    using that by (intro power_strict_increasing) simp_all
  with assms show ?thesis
    by (simp add: sorted_wrt_map sorted_wrt_iff_nth_less)
qed

text \<open>
  Claim C5. When the first attempt of an operation fails with an error whose status is
  400, 401 or 403, the retrier fails with that very error, the operation has been invoked
  exactly once, and nothing was slept.
\<close>

theorem retry_stops_on_nonretryable:
  assumes "fn 0 = Inl error" and "nonRetryable error"
  shows "fst (retryWithBackoff fn maxRetries baseDelay) = Inl error
       \<and> attempts (snd (retryWithBackoff fn maxRetries baseDelay)) = 1
       \<and> delays (snd (retryWithBackoff fn maxRetries baseDelay)) = []"
  using assms by (simp add: retryWithBackoff_def retry_loop_gives_up attempts_def)

theorem retry_stops_on_nonretryable_witness:
  "nonRetryable \<lparr>status = Some 403, code = None, message = ''denied''\<rparr>
   \<and> fst (retryWithBackoff (\<lambda>i. if i = 0 then Inl \<lparr>status = Some 403, code = None, message = ''denied''\<rparr> else Inr True) 8 5000)
     = Inl \<lparr>status = Some 403, code = None, message = ''denied''\<rparr>
   \<and> attempts (snd (retryWithBackoff (\<lambda>i. if i = 0 then Inl \<lparr>status = Some 403, code = None, message = ''denied''\<rparr> else Inr True) 8 5000)) = 1"
  using retry_stops_on_nonretryable [of "\<lambda>i. if i = 0 then Inl \<lparr>status = Some 403, code = None, message = ''denied''\<rparr> else Inr True"
      "\<lparr>status = Some 403, code = None, message = ''denied''\<rparr>" 8 5000]
  by (simp add: nonRetryable_def)

text \<open>
  Claim C6. The maximum attempt count of \<open>retryWithBackoff fn maxRetries baseDelay\<close> is
  \<open>maxRetries + 1\<close>. When the operation fails \<open>k\<close> times with errors that are not of the
  non-retryable class, \<open>k\<close> below that count, and then succeeds, the retrier returns the
  result after exactly \<open>k + 1\<close> invocations, and the delay slept before retry \<open>i\<close>
  (from 0) is \<open>baseDelay * 1.5 ^ i\<close>; for a positive base delay these delays increase
  strictly. When every permitted attempt fails, the retrier fails with the error of the last
  attempt, unchanged, after \<open>maxRetries + 1\<close> invocations.
\<close>

theorem retry_transient:
  fixes fn :: "nat \<Rightarrow> js_error + 'a"
  shows "(k < maxRetries + 1 \<and> (\<forall>i<k. \<exists>error. fn i = Inl error \<and> \<not> nonRetryable error) \<and> fn k = Inr v
            \<longrightarrow> fst (retryWithBackoff fn maxRetries baseDelay) = Inr v
              \<and> attempts (snd (retryWithBackoff fn maxRetries baseDelay)) = k + 1
              \<and> delays (snd (retryWithBackoff fn maxRetries baseDelay)) = map (\<lambda>i. baseDelay * (3 / 2) ^ i) [0..<k]
              \<and> (0 < baseDelay \<longrightarrow> sorted_wrt (<) (delays (snd (retryWithBackoff fn maxRetries baseDelay)))))
       \<and> ((\<forall>i<maxRetries. \<exists>error. fn i = Inl error \<and> \<not> nonRetryable error) \<and> fn maxRetries = Inl final
            \<longrightarrow> fst (retryWithBackoff fn maxRetries baseDelay) = Inl final
              \<and> attempts (snd (retryWithBackoff fn maxRetries baseDelay)) = maxRetries + 1)"
proof (intro conjI impI)
  assume a: "k < maxRetries + 1 \<and> (\<forall>i<k. \<exists>error. fn i = Inl error \<and> \<not> nonRetryable error) \<and> fn k = Inr v"
  then have run: "retryWithBackoff fn maxRetries baseDelay = (Inr v, backoff_effects maxRetries baseDelay 0 k @ [Invoke])"
    unfolding retryWithBackoff_def by (intro retry_loop_succeeds) auto
  show "fst (retryWithBackoff fn maxRetries baseDelay) = Inr v"
    by (simp add: run)
  show "attempts (snd (retryWithBackoff fn maxRetries baseDelay)) = k + 1"
    by (simp add: run attempts_backoff_effects)
  show d: "delays (snd (retryWithBackoff fn maxRetries baseDelay)) = map (\<lambda>i. baseDelay * (3 / 2) ^ i) [0..<k]"
    by (simp only: run snd_conv delays_backoff_effects)
  show "sorted_wrt (<) (delays (snd (retryWithBackoff fn maxRetries baseDelay)))" if "0 < baseDelay"
    by (simp only: d growing_delays [OF that])
next
  assume a: "(\<forall>i<maxRetries. \<exists>error. fn i = Inl error \<and> \<not> nonRetryable error) \<and> fn maxRetries = Inl final"
  then have run: "retryWithBackoff fn maxRetries baseDelay = (Inl final, backoff_effects maxRetries baseDelay 0 maxRetries @ [Invoke])"
    unfolding retryWithBackoff_def by (intro retry_loop_exhausts) auto
  show "fst (retryWithBackoff fn maxRetries baseDelay) = Inl final"
    by (simp add: run)
  show "attempts (snd (retryWithBackoff fn maxRetries baseDelay)) = maxRetries + 1"
    by (simp add: run attempts_backoff_effects)
qed

text \<open>
  An operation that is unavailable twice and then returns, under the submission policy;
  and one that is unavailable at each of the three attempts it is given.
\<close>

theorem retry_transient_witness:
  "fst (retryWithBackoff (\<lambda>i. if i < 2 then Inl \<lparr>status = Some 503, code = None, message = ''busy''\<rparr> else Inr True) 8 5000) = Inr True
   \<and> attempts (snd (retryWithBackoff (\<lambda>i. if i < 2 then Inl \<lparr>status = Some 503, code = None, message = ''busy''\<rparr> else Inr True) 8 5000)) = 3
   \<and> delays (snd (retryWithBackoff (\<lambda>i. if i < 2 then Inl \<lparr>status = Some 503, code = None, message = ''busy''\<rparr> else Inr True) 8 5000)) = [5000, 7500]
   \<and> sorted_wrt (<) (delays (snd (retryWithBackoff (\<lambda>i. if i < 2 then Inl \<lparr>status = Some 503, code = None, message = ''busy''\<rparr> else Inr True) 8 5000)))
   \<and> fst (retryWithBackoff (\<lambda>i. Inl \<lparr>status = Some 503, code = None, message = (if i = 2 then ''final'' else ''busy'')\<rparr> :: js_error + bool) 2 3000)
       = Inl \<lparr>status = Some 503, code = None, message = ''final''\<rparr>
   \<and> attempts (snd (retryWithBackoff (\<lambda>i. Inl \<lparr>status = Some 503, code = None, message = (if i = 2 then ''final'' else ''busy'')\<rparr> :: js_error + bool) 2 3000)) = 3"
proof -
  let ?busy = "\<lparr>status = Some 503, code = None, message = ''busy''\<rparr>"
  let ?f = "\<lambda>i::nat. if i < 2 then Inl ?busy else Inr True"
  let ?g = "\<lambda>i::nat. Inl \<lparr>status = Some 503, code = None, message = (if i = 2 then ''final'' else ''busy'')\<rparr> :: js_error + bool"
  have f: "(2::nat) < 8 + 1 \<and> (\<forall>i<2. \<exists>error. ?f i = Inl error \<and> \<not> nonRetryable error) \<and> ?f 2 = Inr True"
    by (simp add: nonRetryable_def)
  have g: "(\<forall>i<2. \<exists>error. ?g i = Inl error \<and> \<not> nonRetryable error)
      \<and> ?g 2 = Inl \<lparr>status = Some 503, code = None, message = ''final''\<rparr>"
    by (simp add: nonRetryable_def)
  have upt: "[0..<2] = [0, Suc 0]"
    by (simp add: upt_conv_Cons)
  show ?thesis
    using retry_transient [of 2 8 ?f True 5000 "undefined"] f
      retry_transient [of 0 2 ?g True 3000 "\<lparr>status = Some 503, code = None, message = ''final''\<rparr>"] g
    by (simp add: upt)
qed

section \<open>Properties of the queue\<close>

lemma maxConcurrent_processQueue: "maxConcurrent (processQueue s) = maxConcurrent s"
  by (simp add: processQueue_def split: list.splits)

lemma maxConcurrent_step: "maxConcurrent (step s e) = maxConcurrent s"
  by (cases e) (simp_all add: add_def settle_def timer_fires_def maxConcurrent_processQueue)

lemma maxConcurrent_run: "maxConcurrent (run evs s) = maxConcurrent s"
  unfolding run_def by (induction evs arbitrary: s) (simp_all add: maxConcurrent_step)

lemma within_limit_processQueue: "within_limit s \<Longrightarrow> within_limit (processQueue s)"
proof -
  assume a: "within_limit s"
  show ?thesis
  proof (cases "card (running s) \<ge> maxConcurrent s \<or> length (queue s) = 0")
    case True
    with a show ?thesis by (simp add: processQueue_def)
  next
    case False
    then obtain item rest where q: "queue s = item # rest" by (cases "queue s") auto
    from a have "card (insert item (running s)) \<le> Suc (card (running s))"
      by (simp add: within_limit_def card_insert_if)
    with False a q show ?thesis
      by (simp add: processQueue_def within_limit_def)
  qed
qed

lemma within_limit_step: "within_limit s \<Longrightarrow> within_limit (step s e)"
proof (cases e)
  case (Add item)
  assume "within_limit s"
  then have "within_limit (s\<lparr>queue := queue s @ [item],
          notices := notices s @ [Queued item (length (queue s @ [item])) (card (running s)) (maxConcurrent s)]\<rparr>)"
    by (simp add: within_limit_def)
  then show ?thesis unfolding Add step.simps add_def by (rule within_limit_processQueue)
next
  case (Settle item outcome)
  assume a: "within_limit s"
  then have "card (running s - {item}) \<le> card (running s)"
    by (simp add: within_limit_def card_Diff1_le)
  with a show ?thesis by (simp add: Settle settle_def within_limit_def)
next
  case Timer
  assume a: "within_limit s"
  show ?thesis
  proof (cases "timers s = 0")
    case True
    with a show ?thesis by (simp add: Timer timer_fires_def)
  next
    case False
    from a have "within_limit (s\<lparr>timers := timers s - 1\<rparr>)" by (simp add: within_limit_def)
    then have "within_limit (processQueue (s\<lparr>timers := timers s - 1\<rparr>))" by (rule within_limit_processQueue)
    with False show ?thesis by (simp add: Timer timer_fires_def)
  qed
qed

lemma within_limit_run: "within_limit s \<Longrightarrow> within_limit (run evs s)"
  unfolding run_def by (induction evs arbitrary: s) (simp_all add: within_limit_step)

lemma within_limit_initial: "within_limit (initial limit)"
  by (simp add: within_limit_def initial_def)

lemma run_snoc: "run (evs @ [e]) s = step (run evs s) e"
  by (simp add: run_def)

lemma admitted_in_append: "admitted_in (ns @ ms) = admitted_in ns @ admitted_in ms"
  by (induction ns rule: admitted_in.induct) simp_all

lemma started_in_append: "started_in (ns @ ms) = started_in ns @ started_in ms"
  by (induction ns rule: started_in.induct) simp_all

text \<open>What one step does to the pending items, the items started and the items admitted.\<close>

lemma processQueue_moves:
  "(queue (processQueue s) = queue s \<and> started (processQueue s) = started s
      \<or> (\<exists>item. queue s = item # queue (processQueue s) \<and> started (processQueue s) = started s @ [item]
            \<and> item \<in> running (processQueue s)))
   \<and> admitted (processQueue s) = admitted s"
  by (cases "queue s")
    (simp_all add: processQueue_def started_def admitted_def started_in_append admitted_in_append)

lemma step_moves:
  "\<exists>new begun. admitted (step s e) = admitted s @ new
     \<and> started (step s e) = started s @ begun
     \<and> begun @ queue (step s e) = queue s @ new
     \<and> set begun \<subseteq> running (step s e)"
proof (cases e)
  case (Add item)
  let ?t = "s\<lparr>queue := queue s @ [item],
          notices := notices s @ [Queued item (length (queue s @ [item])) (card (running s)) (maxConcurrent s)]\<rparr>"
  have t: "admitted ?t = admitted s @ [item]" "started ?t = started s" "queue ?t = queue s @ [item]"
    by (simp_all add: admitted_def started_def admitted_in_append started_in_append)
  from processQueue_moves [of ?t] show ?thesis
    unfolding Add step.simps add_def t by (elim conjE disjE exE) auto
next
  case (Settle item outcome)
  have "admitted (settle item outcome s) = admitted s" "started (settle item outcome s) = started s"
    "queue (settle item outcome s) = queue s"
    by (simp_all add: settle_def admitted_def started_def admitted_in_append started_in_append split: sum.splits)
  then show ?thesis by (simp add: Settle)
next
  case Timer
  show ?thesis
  proof (cases "timers s = 0")
    case True
    then show ?thesis by (simp add: Timer timer_fires_def)
  next
    case False
    let ?t = "s\<lparr>timers := timers s - 1\<rparr>"
    have t: "admitted ?t = admitted s" "started ?t = started s" "queue ?t = queue s"
      by (simp_all add: admitted_def started_def)
    from processQueue_moves [of ?t] False show ?thesis
      unfolding Timer step.simps timer_fires_def t by (elim conjE disjE exE) auto
  qed
qed

lemma run_moves:
  "\<exists>new begun. admitted (run evs s) = admitted s @ new
     \<and> started (run evs s) = started s @ begun
     \<and> begun @ queue (run evs s) = queue s @ new"
proof (induction evs rule: rev_induct)
  case Nil
  show ?case by (simp add: run_def)
next
  case (snoc e evs)
  then obtain new begun where 1: "admitted (run evs s) = admitted s @ new"
    "started (run evs s) = started s @ begun" "begun @ queue (run evs s) = queue s @ new"
    by blast
  from step_moves [of "run evs s" e] obtain new' begun' where 2:
    "admitted (step (run evs s) e) = admitted (run evs s) @ new'"
    "started (step (run evs s) e) = started (run evs s) @ begun'"
    "begun' @ queue (step (run evs s) e) = queue (run evs s) @ new'"
    by blast
  have "(begun @ begun') @ queue (step (run evs s) e) = queue s @ (new @ new')"
    using 1(3) 2(3) by (metis append.assoc)
  with 1 2 show ?case
    unfolding run_snoc by (intro exI [of _ "new @ new'"] exI [of _ "begun @ begun'"]) simp
qed

text \<open>A fresh queue that only admits: the first \<open>limit\<close> items run, the others wait.\<close>

lemma adds_state:
  assumes "distinct items"
  shows "queue (run (map Add items) (initial limit)) = drop limit items
       \<and> running (run (map Add items) (initial limit)) = set (take limit items)
       \<and> maxConcurrent (run (map Add items) (initial limit)) = limit"
  using assms
proof (induction items rule: rev_induct)
  case Nil
  then show ?case by (simp add: run_def initial_def)
next
  case (snoc x xs)
  let ?s = "run (map Add xs) (initial limit)"
  from snoc have q: "queue ?s = drop limit xs" and r: "running ?s = set (take limit xs)"
    and m: "maxConcurrent ?s = limit" by simp_all
  from snoc.prems have d: "distinct xs" "x \<notin> set xs" by simp_all
  have c: "card (running ?s) = min (length xs) limit"
    using d by (simp add: r distinct_card)
  show ?case
  proof (cases "length xs < limit")
    case True
    then show ?thesis
      using q r m c by (simp add: run_snoc add_def processQueue_def)
  next
    case False
    then show ?thesis
      using q r m c by (simp add: run_snoc add_def processQueue_def)
  qed
qed

lemma fifo_invariant: "started (run evs (initial limit)) @ queue (run evs (initial limit)) = admitted (run evs (initial limit))"
  using run_moves [of evs "initial limit"] by (auto simp: initial_def admitted_def started_def)

lemmas scheduler_defs =
  run_def initial_def add_def processQueue_def settle_def timer_fires_def

text \<open>
  Claim C3. From a fresh queue with limit \<open>limit\<close>, after any sequence of steps
  (admissions, settlements, timers) the set of running items has at most \<open>limit\<close> elements.
  When \<open>N\<close> items with distinct identifiers are admitted one right after the other and
  \<open>N\<close> exceeds the limit, \<open>N - limit\<close> items are pending afterwards and \<open>limit\<close> items run.
\<close>

theorem running_bounded_and_backlog:
  "card (running (run evs (initial limit))) \<le> limit
   \<and> (distinct items \<and> limit < length items
        \<longrightarrow> length (queue (run (map Add items) (initial limit))) = length items - limit
          \<and> card (running (run (map Add items) (initial limit))) = limit)"
proof (intro conjI impI)
  have "within_limit (run evs (initial limit))"
    by (rule within_limit_run) (rule within_limit_initial)
  then show "card (running (run evs (initial limit))) \<le> limit"
    by (simp add: within_limit_def maxConcurrent_run initial_def)
next
  assume "distinct items \<and> limit < length items"
  then show "length (queue (run (map Add items) (initial limit))) = length items - limit"
    by (simp add: adds_state)
next
  assume a: "distinct items \<and> limit < length items"
  then have "distinct (take limit items)" by simp
  with a show "card (running (run (map Add items) (initial limit))) = limit"
    by (simp add: adds_state distinct_card)
qed

text \<open>Five jobs admitted to the queue of the service module, whose limit is 4.\<close>

theorem running_bounded_and_backlog_witness:
  "distinct [''v1'', ''v2'', ''v3'', ''v4'', ''v5''] \<and> 4 < length [''v1'', ''v2'', ''v3'', ''v4'', ''v5'']
   \<and> card (running (run [Add ''v1'', Add ''v2'', Settle ''v1'' (Inr [''url'']), Timer] (initial 4))) \<le> 4
   \<and> length (queue (run (map Add [''v1'', ''v2'', ''v3'', ''v4'', ''v5'']) (initial 4))) = 1
   \<and> card (running (run (map Add [''v1'', ''v2'', ''v3'', ''v4'', ''v5'']) (initial 4))) = 4"
  using running_bounded_and_backlog
    [of "[Add ''v1'', Add ''v2'', Settle ''v1'' (Inr [''url'']), Timer]" 4 "[''v1'', ''v2'', ''v3'', ''v4'', ''v5'']"]
  by simp

text \<open>
  Claim C4. At any moment of a run from a fresh queue in which identifiers are unique: when
  \<open>A\<close> was admitted before \<open>B\<close> and \<open>B\<close> has been started, then \<open>A\<close> has been started
  before \<open>B\<close>; the items started are, in the order of their starts, an initial part of
  the items admitted.
\<close>

theorem starts_follow_admission_order:
  assumes "s = run evs (initial limit)"
    and "distinct (admitted s)"
    and "admitted s = xs @ A # ys @ B # zs"
    and "B \<in> set (started s)"
  shows "\<exists>ws. started s = xs @ A # ys @ B # ws"
proof -
  let ?n = "length (started s)"
  have inv: "started s @ queue s = admitted s"
    unfolding assms(1) by (rule fifo_invariant)
  then have pre: "started s = take ?n (admitted s)"
    by (metis append_eq_conv_conj)
  from assms(2,3) have notin: "B \<notin> set (xs @ A # ys)" by auto
  have split: "admitted s = (xs @ A # ys) @ B # zs"
    unfolding assms(3) by simp
  have "length (xs @ A # ys) < ?n"
  proof (rule ccontr)
    assume "\<not> length (xs @ A # ys) < ?n"
    then have "take ?n (admitted s) = take ?n (xs @ A # ys)"
      unfolding split by (simp only: take_append) simp
    with pre have "set (started s) \<subseteq> set (xs @ A # ys)"
      by (metis set_take_subset)
    with assms(4) notin show False by blast
  qed
  then have "take ?n (admitted s) = (xs @ A # ys) @ B # take (?n - length (xs @ A # ys) - 1) zs"
    unfolding split by (simp only: take_append) (simp add: take_Cons')
  with pre have "started s = xs @ A # ys @ B # take (?n - length (xs @ A # ys) - 1) zs"
    by (simp only: append.assoc append_Cons)
  then show ?thesis by (rule exI)
qed

text \<open>With limit 1, three jobs start one after the other as the slot is freed.\<close>

theorem starts_follow_admission_order_witness:
  "distinct (admitted (run [Add ''a'', Add ''b'', Add ''c'', Settle ''a'' (Inr []), Timer, Settle ''b'' (Inr []), Timer] (initial 1)))
   \<and> admitted (run [Add ''a'', Add ''b'', Add ''c'', Settle ''a'' (Inr []), Timer, Settle ''b'' (Inr []), Timer] (initial 1))
       = [''a''] @ ''b'' # [] @ ''c'' # []
   \<and> ''c'' \<in> set (started (run [Add ''a'', Add ''b'', Add ''c'', Settle ''a'' (Inr []), Timer, Settle ''b'' (Inr []), Timer] (initial 1)))
   \<and> (\<exists>ws. started (run [Add ''a'', Add ''b'', Add ''c'', Settle ''a'' (Inr []), Timer, Settle ''b'' (Inr []), Timer] (initial 1))
          = [''a''] @ ''b'' # [] @ ''c'' # ws)"
proof -
  let ?s = "run [Add ''a'', Add ''b'', Add ''c'', Settle ''a'' (Inr []), Timer, Settle ''b'' (Inr []), Timer] (initial 1)"
  have n: "notices ?s =
     [Queued ''a'' 1 0 1, Starting ''a'' 1 1, Queued ''b'' 1 1 1, Queued ''c'' 2 1 1,
      Resolved ''a'' [], Starting ''b'' 1 1, Resolved ''b'' [], Starting ''c'' 1 1]"
    by (simp add: scheduler_defs)
  have a: "admitted ?s = [''a''] @ ''b'' # [] @ ''c'' # []"
    unfolding admitted_def n by simp
  have d: "distinct (admitted ?s)"
    unfolding admitted_def n by simp
  have c: "''c'' \<in> set (started ?s)"
    unfolding started_def n by simp
  from starts_follow_admission_order [OF refl d a c] d a c show ?thesis
    by blast
qed

text \<open>
  Claim C8, as the code has it. The queue has no operation that removes an item: its
  operations are \<open>add\<close>, \<open>processQueue\<close> and \<open>getQueueStatus\<close>. Deleting a job in the
  application (\<open>handleDeleteJob\<close>) takes it from the displayed list only and leaves the
  queue as it is; and whatever happens to the queue afterwards, an item that was pending is
  still pending or has been started in the meantime.
\<close>

theorem delete_leaves_queue:
  "videoQueue (handleDeleteJob jobId a) = videoQueue a
   \<and> (x \<in> set (queue (videoQueue a)) \<longrightarrow>
        x \<in> set (queue (run evs (videoQueue (handleDeleteJob jobId a))))
        \<or> x \<in> set (started_after (videoQueue a) (run evs (videoQueue (handleDeleteJob jobId a)))))"
proof -
  have same: "videoQueue (handleDeleteJob jobId a) = videoQueue a"
    by (simp add: handleDeleteJob_def)
  from run_moves [of evs "videoQueue a"] obtain new begun where
    m: "started (run evs (videoQueue a)) = started (videoQueue a) @ begun"
       "begun @ queue (run evs (videoQueue a)) = queue (videoQueue a) @ new"
    by blast
  have "x \<in> set (queue (run evs (videoQueue a))) \<or> x \<in> set begun" if "x \<in> set (queue (videoQueue a))"
  proof -
    from that have "x \<in> set (begun @ queue (run evs (videoQueue a)))" unfolding m(2) by simp
    then show ?thesis by auto
  qed
  then show ?thesis
    by (simp add: same started_after_def m(1))
qed


theorem delete_leaves_queue_witness:
  "''v5'' \<in> set (queue (run (map Add [''v1'', ''v2'', ''v3'', ''v4'', ''v5'']) (initial 4)))
   \<and> ''v5'' \<in> set (started_after (run (map Add [''v1'', ''v2'', ''v3'', ''v4'', ''v5'']) (initial 4))
        (run [Settle ''v1'' (Inr [''url'']), Timer]
           (videoQueue (handleDeleteJob 5
              \<lparr>jobs = [], videoQueue = run (map Add [''v1'', ''v2'', ''v3'', ''v4'', ''v5'']) (initial 4)\<rparr>))))"
proof -
  let ?q = "run (map Add [''v1'', ''v2'', ''v3'', ''v4'', ''v5'']) (initial 4)"
  let ?a = "\<lparr>jobs = [], videoQueue = ?q\<rparr>"
  have q: "queue ?q = [''v5'']"
    by (simp add: scheduler_defs)
  have later: "queue (run [Settle ''v1'' (Inr [''url'']), Timer] ?q) = []"
    by (simp add: scheduler_defs)
  from delete_leaves_queue [of 5 ?a "''v5''" "[Settle ''v1'' (Inr [''url'']), Timer]"] q later
  show ?thesis by (simp add: handleDeleteJob_def)
qed

text \<open>
  Claim C8, as the specification has it, fails: job 5 is pending when the application
  deletes it; its item stays in the queue and is started once a slot is free.
\<close>

theorem delete_counterexample:
  "queue (videoQueue
      (handleDeleteJob 5
         \<lparr>jobs = [\<lparr>job_id = 5, job_status = Loading, job_message = ''Preparing request...''\<rparr>],
          videoQueue = run (map Add [''v1'', ''v2'', ''v3'', ''v4'', ''v5'']) (initial 4)\<rparr>)) = [''v5'']
   \<and> jobs (handleDeleteJob 5
         \<lparr>jobs = [\<lparr>job_id = 5, job_status = Loading, job_message = ''Preparing request...''\<rparr>],
          videoQueue = run (map Add [''v1'', ''v2'', ''v3'', ''v4'', ''v5'']) (initial 4)\<rparr>) = []
   \<and> ''v5'' \<in> running (run [Settle ''v1'' (Inr [''url'']), Timer]
        (videoQueue
          (handleDeleteJob 5
             \<lparr>jobs = [\<lparr>job_id = 5, job_status = Loading, job_message = ''Preparing request...''\<rparr>],
              videoQueue = run (map Add [''v1'', ''v2'', ''v3'', ''v4'', ''v5'']) (initial 4)\<rparr>)))"
  by (simp add: scheduler_defs handleDeleteJob_def)

section \<open>Properties of the executor\<close>

lemma poll_loop_stop:
  "op_done operation \<or> maxPollAttempts \<le> pollAttempts \<Longrightarrow>
   poll_loop env operation pollAttempts messageIndex = (Inr operation, pollAttempts, messageIndex, [])"
  by (subst poll_loop.simps) auto

lemma poll_loop_next:
  assumes "\<not> op_done operation" "pollAttempts < maxPollAttempts"
    and "fst (poll env (Suc pollAttempts)) = Inr operation'"
  shows "poll_loop env operation pollAttempts messageIndex =
     (case poll_loop env operation' (Suc pollAttempts) (next_index messageIndex) of
        (r, pa, mi, rest) \<Rightarrow>
          (r, pa, mi, [Sleep 15000] @ shown messageIndex @ snd (poll env (Suc pollAttempts)) @ rest))"
proof -
  obtain effs where p: "retryWithBackoff (getVideosOperation env (Suc pollAttempts)) 5 3000 = (Inr operation', effs)"
    using assms(3) by (cases "retryWithBackoff (getVideosOperation env (Suc pollAttempts)) 5 3000") (simp add: poll_def)
  show ?thesis
    using assms(1,2) by (subst poll_loop.simps) (simp add: p poll_def shown_def next_index_def)
qed

lemma poll_loop_tolerates:
  assumes "\<not> op_done operation" "pollAttempts < maxPollAttempts"
    and "fst (poll env (Suc pollAttempts)) = Inl error" "transient error"
  shows "poll_loop env operation pollAttempts messageIndex =
     (case poll_loop env operation (Suc pollAttempts) (next_index messageIndex) of
        (r, pa, mi, rest) \<Rightarrow>
          (r, pa, mi, [Sleep 15000] @ shown messageIndex @ snd (poll env (Suc pollAttempts))
                        @ backoff_notice (Suc pollAttempts) @ rest))"
proof -
  obtain effs where p: "retryWithBackoff (getVideosOperation env (Suc pollAttempts)) 5 3000 = (Inl error, effs)"
    using assms(3) by (cases "retryWithBackoff (getVideosOperation env (Suc pollAttempts)) 5 3000") (simp add: poll_def)
  show ?thesis
    using assms(1,2,4)
    by (subst poll_loop.simps) (simp add: p poll_def shown_def next_index_def transient_def backoff_notice_def)
qed

lemma poll_loop_throws:
  assumes "\<not> op_done operation" "pollAttempts < maxPollAttempts"
    and "fst (poll env (Suc pollAttempts)) = Inl error" "\<not> transient error"
  shows "poll_loop env operation pollAttempts messageIndex =
     (Inl error, Suc pollAttempts, next_index messageIndex,
      [Sleep 15000] @ shown messageIndex @ snd (poll env (Suc pollAttempts)))"
proof -
  obtain effs where p: "retryWithBackoff (getVideosOperation env (Suc pollAttempts)) 5 3000 = (Inl error, effs)"
    using assms(3) by (cases "retryWithBackoff (getVideosOperation env (Suc pollAttempts)) 5 3000") (simp add: poll_def)
  show ?thesis
    using assms(1,2,4)
    by (subst poll_loop.simps) (simp add: p poll_def shown_def next_index_def transient_def)
qed

lemma poll_loop_bound:
  "pollAttempts \<le> fst (snd (poll_loop env operation pollAttempts messageIndex))
   \<and> fst (snd (poll_loop env operation pollAttempts messageIndex)) \<le> max pollAttempts maxPollAttempts"
proof (induction "maxPollAttempts - pollAttempts" arbitrary: operation pollAttempts messageIndex)
  case 0
  then show ?case by (simp add: poll_loop_stop)
next
  case (Suc d)
  then have lt: "pollAttempts < maxPollAttempts" by simp
  have ih: "Suc pollAttempts \<le> fst (snd (poll_loop env operation' (Suc pollAttempts) mi))
     \<and> fst (snd (poll_loop env operation' (Suc pollAttempts) mi)) \<le> max (Suc pollAttempts) maxPollAttempts"
    for operation' mi
    using Suc by (intro Suc.hyps(1)) simp
  show ?case
  proof (cases "op_done operation")
    case True
    then show ?thesis by (simp add: poll_loop_stop)
  next
    case False
    show ?thesis
    proof (cases "fst (poll env (Suc pollAttempts))")
      case (Inr operation')
      from ih [of operation' "next_index messageIndex"] lt show ?thesis
        by (simp add: poll_loop_next [OF False lt Inr] split_beta)
    next
      case (Inl error)
      show ?thesis
      proof (cases "transient error")
        case True
        from ih [of operation "next_index messageIndex"] lt show ?thesis
          by (simp add: poll_loop_tolerates [OF False lt Inl True] split_beta)
      next
        case nt: False
        from lt show ?thesis
          by (simp add: poll_loop_throws [OF False lt Inl nt])
      qed
    qed
  qed
qed

lemma poll_loop_quiet:
  assumes "\<not> op_done operation" "pollAttempts \<le> k" "k \<le> maxPollAttempts"
    and "\<forall>i. pollAttempts < i \<and> i \<le> k \<longrightarrow> quiet env i"
  shows "\<exists>operation' mi' effs. \<not> op_done operation'
     \<and> poll_loop env operation pollAttempts messageIndex =
         (case poll_loop env operation' k mi' of (r, pa, mi, rest) \<Rightarrow> (r, pa, mi, effs @ rest))"
  using assms
proof (induction "k - pollAttempts" arbitrary: operation pollAttempts messageIndex)
  case 0
  then have "pollAttempts = k" by simp
  with 0 show ?case
    by (intro exI [of _ operation] exI [of _ messageIndex] exI [of _ "[]"]) (simp split: prod.splits)
next
  case (Suc d)
  then have lt: "pollAttempts < k" by simp
  with Suc.prems have lt': "pollAttempts < maxPollAttempts" by simp
  from Suc.prems lt have q: "quiet env (Suc pollAttempts)" by simp
  have ih: "\<exists>operation' mi' effs. \<not> op_done operation'
     \<and> poll_loop env op1 (Suc pollAttempts) mi1 =
         (case poll_loop env operation' k mi' of (r, pa, mi, rest) \<Rightarrow> (r, pa, mi, effs @ rest))"
    if "\<not> op_done op1" for op1 mi1
    using Suc.hyps(2) Suc.prems lt that by (intro Suc.hyps(1)) auto
  show ?case
  proof (cases "fst (poll env (Suc pollAttempts))")
    case (Inr op1)
    with q have nd: "\<not> op_done op1" by (simp add: quiet_def)
    from ih [OF nd, of "next_index messageIndex"] obtain operation' mi' effs where
      1: "\<not> op_done operation'"
         "poll_loop env op1 (Suc pollAttempts) (next_index messageIndex) =
           (case poll_loop env operation' k mi' of (r, pa, mi, rest) \<Rightarrow> (r, pa, mi, effs @ rest))"
      by blast
    show ?thesis
      by (intro exI [of _ operation'] exI [of _ mi']
            exI [of _ "[Sleep 15000] @ shown messageIndex @ snd (poll env (Suc pollAttempts)) @ effs"])
        (simp add: 1 poll_loop_next [OF Suc.prems(1) lt' Inr] split: prod.splits)
  next
    case (Inl error)
    with q have tr: "transient error" by (simp add: quiet_def)
    from ih [OF Suc.prems(1), of "next_index messageIndex"] obtain operation' mi' effs where
      1: "\<not> op_done operation'"
         "poll_loop env operation (Suc pollAttempts) (next_index messageIndex) =
           (case poll_loop env operation' k mi' of (r, pa, mi, rest) \<Rightarrow> (r, pa, mi, effs @ rest))"
      by blast
    show ?thesis
      by (intro exI [of _ operation'] exI [of _ mi']
            exI [of _ "[Sleep 15000] @ shown messageIndex @ snd (poll env (Suc pollAttempts))
                         @ backoff_notice (Suc pollAttempts) @ effs"])
        (simp add: 1 poll_loop_tolerates [OF Suc.prems(1) lt' Inl tr] split: prod.splits)
  qed
qed


text \<open>How the executor's result follows from the outcome of polling.\<close>

lemma executeGeneration_polled:
  assumes "readable imageFile"
    and "fst (retryWithBackoff (generateVideos env) 8 5000) = Inr operation"
  shows "fst (executeGeneration env imageFile) =
     (case fst (poll_loop env operation 0 1) of
        Inl error \<Rightarrow> Inl (catch_block error)
      | Inr operation' \<Rightarrow>
          (case fst (after_polling env operation' (fst (snd (poll_loop env operation 0 1)))) of
             Inl error \<Rightarrow> Inl (catch_block error)
           | Inr videoUrls \<Rightarrow> Inr videoUrls))"
proof -
  obtain effs where s: "retryWithBackoff (generateVideos env) 8 5000 = (Inr operation, effs)"
    using assms(2) by (cases "retryWithBackoff (generateVideos env) 8 5000") simp
  from assms(1) show ?thesis
    by (simp add: executeGeneration_def try_block_def s readable_def Let_def split_beta
        split: option.splits sum.splits)
qed

lemma catch_block_timeout: "catch_block (new_Error timeout_message) = new_Error timeout_message"
  by (simp add: catch_block_def new_Error_def timeout_message_def)



lemma poll_first_answer: "fn 0 = Inr operation \<Longrightarrow> retryWithBackoff fn maxRetries baseDelay = (Inr operation, [Invoke])"
  by (simp add: retryWithBackoff_def retry_loop_returns)







text \<open>
  Claim C10. When iterations 1 to 99 neither report completion nor fail fatally and
  iteration 100 reports that the operation is done, with videos, the loop is left with the
  finished operation and the counter at 100, and the job fails with the timeout error.
\<close>

theorem done_at_cap_times_out:
  assumes "readable imageFile"
    and "fst (retryWithBackoff (generateVideos env) 8 5000) = Inr operation"
    and "\<not> op_done operation"
    and "\<forall>i. 1 \<le> i \<and> i < maxPollAttempts \<longrightarrow> quiet env i"
    and "fst (poll env maxPollAttempts) = Inr operation'"
    and "op_done operation'"
    and "generatedVideos operation' = Some videos" and "videos \<noteq> []"
  shows "fst (poll_loop env operation 0 1) = Inr operation'
       \<and> fst (snd (poll_loop env operation 0 1)) = 100
       \<and> fst (executeGeneration env imageFile) = Inl (new_Error timeout_message)"
proof -
  obtain k where k: "maxPollAttempts = Suc k"
    by (cases maxPollAttempts) (simp_all add: maxPollAttempts_def)
  have lt: "k < maxPollAttempts" by (simp add: k)
  have q: "\<forall>i. 0 < i \<and> i \<le> k \<longrightarrow> quiet env i"
    using assms(4) by (auto simp add: k)
  have "\<exists>op1 mi1 effs. \<not> op_done op1
     \<and> poll_loop env operation 0 1 =
         (case poll_loop env op1 k mi1 of (r, pa, mi, rest) \<Rightarrow> (r, pa, mi, effs @ rest))"
    by (rule poll_loop_quiet [OF assms(3) _ _ q]) (simp_all add: k)
  then obtain op1 mi1 effs where 1: "\<not> op_done op1"
    and 2: "poll_loop env operation 0 1 =
         (case poll_loop env op1 k mi1 of (r, pa, mi, rest) \<Rightarrow> (r, pa, mi, effs @ rest))"
    by blast
  have 3: "fst (poll env (Suc k)) = Inr operation'"
    using assms(5) by (simp add: k)
  have 4: "poll_loop env operation' (Suc k) mi = (Inr operation', Suc k, mi, [])" for mi
    using assms(6) by (simp add: poll_loop_stop)
  have loop: "fst (poll_loop env operation 0 1) = Inr operation'"
    "fst (snd (poll_loop env operation 0 1)) = Suc k"
    unfolding 2 poll_loop_next [OF 1 lt 3] 4 by simp_all
  have "fst (executeGeneration env imageFile) = Inl (new_Error timeout_message)"
    unfolding executeGeneration_polled [OF assms(1,2)] loop
    by (simp add: after_polling_def k catch_block_timeout)
  moreover have "Suc k = 100"
    using k by (simp add: maxPollAttempts_def)
  ultimately show ?thesis
    using loop by simp
qed

theorem done_at_cap_times_out_witness:
  "readable None
   \<and> fst (retryWithBackoff (generateVideos (service_done_at 100 (finished (Some [\<lparr>uri = Some ''link''\<rparr>])) (\<lambda>index a. delivers ''content''))) 8 5000)
       = Inr processing
   \<and> \<not> op_done processing
   \<and> fst (poll (service_done_at 100 (finished (Some [\<lparr>uri = Some ''link''\<rparr>])) (\<lambda>index a. delivers ''content'')) maxPollAttempts)
       = Inr (finished (Some [\<lparr>uri = Some ''link''\<rparr>]))
   \<and> op_done (finished (Some [\<lparr>uri = Some ''link''\<rparr>]))
   \<and> generatedVideos (finished (Some [\<lparr>uri = Some ''link''\<rparr>])) = Some [\<lparr>uri = Some ''link''\<rparr>]
   \<and> fst (snd (poll_loop (service_done_at 100 (finished (Some [\<lparr>uri = Some ''link''\<rparr>])) (\<lambda>index a. delivers ''content'')) processing 0 1)) = 100
   \<and> fst (executeGeneration (service_done_at 100 (finished (Some [\<lparr>uri = Some ''link''\<rparr>])) (\<lambda>index a. delivers ''content'')) None)
       = Inl (new_Error timeout_message)"
proof -
  let ?videos = "[\<lparr>uri = Some ''link''\<rparr>]"
  let ?env = "service_done_at 100 (finished (Some ?videos)) (\<lambda>index a. delivers ''content'')"
  have r: "readable None" by (simp add: readable_def)
  have s: "fst (retryWithBackoff (generateVideos ?env) 8 5000) = Inr processing"
    by (simp add: service_done_at_def poll_first_answer)
  have p: "\<not> op_done processing" by (simp add: processing_def)
  have q: "\<forall>i. 1 \<le> i \<and> i < maxPollAttempts \<longrightarrow> quiet ?env i"
    by (simp add: quiet_def poll_def service_done_at_def poll_first_answer maxPollAttempts_def processing_def)
  have l: "fst (poll ?env maxPollAttempts) = Inr (finished (Some ?videos))"
    by (simp add: poll_def service_done_at_def poll_first_answer maxPollAttempts_def)
  have d: "op_done (finished (Some ?videos))" "generatedVideos (finished (Some ?videos)) = Some ?videos" "?videos \<noteq> []"
    by (simp_all add: finished_def)
  from done_at_cap_times_out [OF r s p q l d] r s p l d show ?thesis
    by blast
qed

lemma messages_append: "messages (xs @ ys) = messages xs @ messages ys"
  by (induction xs rule: messages.induct) simp_all

lemma stage_messages_append: "stage_messages (xs @ ys) = stage_messages xs @ stage_messages ys"
  by (simp add: stage_messages_def messages_append)

lemma retry_message_not_stage: "retry_message attempt maxRetries delay \<notin> set progressMessages"
  by (simp add: retry_message_def progressMessages_def)

lemma unavailable_notice_not_stage: "unavailable_notice \<notin> set progressMessages"
  by (simp add: unavailable_notice_def progressMessages_def)

lemma retry_loop_no_stage:
  "stage_messages (snd (retry_loop fn maxRetries baseDelay attempt lastError)) = []"
proof (induction "Suc maxRetries - attempt" arbitrary: attempt lastError)
  case 0
  then show ?case by (subst retry_loop.simps) (simp add: stage_messages_def)
next
  case (Suc d)
  then have le: "attempt \<le> maxRetries" by simp
  show ?case
  proof (cases "fn attempt")
    case (Inr v)
    with le show ?thesis
      by (simp add: retry_loop_returns [where fn = fn] stage_messages_def)
  next
    case (Inl error)
    show ?thesis
    proof (cases "nonRetryable error")
      case True
      with le Inl show ?thesis
        by (simp add: retry_loop_gives_up [where fn = fn and error = error] stage_messages_def)
    next
      case nr: False
      show ?thesis
      proof (cases "attempt = maxRetries")
        case True
        with Inl show ?thesis
          by (simp add: retry_loop_last [where fn = fn] stage_messages_def)
      next
        case False
        with le have lt: "attempt < maxRetries" by simp
        have "stage_messages (snd (retry_loop fn maxRetries baseDelay (Suc attempt) (Some error))) = []"
          using Suc.hyps(2) by (intro Suc.hyps(1)) simp
        then show ?thesis
          using lt Inl nr
          by (simp add: retry_loop_again [where fn = fn and error = error] stage_messages_def retry_message_not_stage)
      qed
    qed
  qed
qed

lemma poll_no_stage: "stage_messages (snd (poll env i)) = []"
  by (simp add: poll_def retryWithBackoff_def retry_loop_no_stage)

lemma backoff_notice_no_stage: "stage_messages (backoff_notice n) = []"
  by (simp add: backoff_notice_def stage_messages_def unavailable_notice_not_stage)

lemma shown_step:
  "0 < n \<Longrightarrow> take n (drop messageIndex progressMessages)
     = stage_messages (shown messageIndex) @ take (n - 1) (drop (next_index messageIndex) progressMessages)"
proof (cases "messageIndex < length progressMessages")
  case True
  assume "0 < n"
  then obtain n' where n: "n = Suc n'" by (cases n) simp_all
  from True show ?thesis
    by (simp add: shown_def next_index_def stage_messages_def n Cons_nth_drop_Suc [symmetric])
next
  case False
  then show ?thesis by (simp add: shown_def next_index_def stage_messages_def)
qed

lemma poll_loop_stage_messages:
  "stage_messages (snd (snd (snd (poll_loop env operation pollAttempts messageIndex))))
     = take (fst (snd (poll_loop env operation pollAttempts messageIndex)) - pollAttempts)
         (drop messageIndex progressMessages)"
proof (induction "maxPollAttempts - pollAttempts" arbitrary: operation pollAttempts messageIndex)
  case 0
  then show ?case by (simp add: poll_loop_stop stage_messages_def)
next
  case (Suc d)
  then have lt: "pollAttempts < maxPollAttempts" by simp
  have ih: "stage_messages (snd (snd (snd (poll_loop env op1 (Suc pollAttempts) mi1))))
     = take (fst (snd (poll_loop env op1 (Suc pollAttempts) mi1)) - Suc pollAttempts) (drop mi1 progressMessages)"
    for op1 mi1
    using Suc.hyps(2) by (intro Suc.hyps(1)) simp
  have more: "0 < fst (snd (poll_loop env op1 (Suc pollAttempts) mi1)) - pollAttempts" for op1 mi1
    using poll_loop_bound [of "Suc pollAttempts" env op1 mi1] by simp
  have sleep: "stage_messages (Sleep d # effs) = stage_messages effs" for d effs
    by (simp add: stage_messages_def)
  show ?case
  proof (cases "op_done operation")
    case True
    then show ?thesis by (simp add: poll_loop_stop stage_messages_def)
  next
    case False
    show ?thesis
    proof (cases "fst (poll env (Suc pollAttempts))")
      case (Inr op1)
      show ?thesis
        using shown_step [OF more [of op1 "next_index messageIndex"], of messageIndex]
        by (simp add: poll_loop_next [OF False lt Inr] split_beta sleep stage_messages_append
            poll_no_stage ih)
    next
      case (Inl error)
      show ?thesis
      proof (cases "transient error")
        case True
        show ?thesis
          using shown_step [OF more [of operation "next_index messageIndex"], of messageIndex]
          by (simp add: poll_loop_tolerates [OF False lt Inl True] split_beta sleep stage_messages_append
              poll_no_stage backoff_notice_no_stage ih)
      next
        case nt: False
        show ?thesis
          using shown_step [of 1 messageIndex]
          by (simp add: poll_loop_throws [OF False lt Inl nt] sleep stage_messages_append poll_no_stage)
      qed
    qed
  qed
qed

text \<open>
  Claim C7, as the code has it. At the start of every poll iteration, before the status
  request and whatever its outcome, the executor emits the next message of the fixed list
  as long as one is left: the stage messages emitted by the loop are the next entries of the
  list, one per iteration, and nothing once the list is used up. The first message is
  emitted right after the submission, so the loop of the executor emits at most the four
  remaining messages; the last message is not repeated.
\<close>

theorem stage_messages_run_out:
  "stage_messages (snd (snd (snd (poll_loop env operation pollAttempts messageIndex))))
     = take (fst (snd (poll_loop env operation pollAttempts messageIndex)) - pollAttempts)
         (drop messageIndex progressMessages)
   \<and> length (stage_messages (snd (snd (snd (poll_loop env operation 0 1)))))
       = min (fst (snd (poll_loop env operation 0 1))) 4"
proof
  show "stage_messages (snd (snd (snd (poll_loop env operation pollAttempts messageIndex))))
     = take (fst (snd (poll_loop env operation pollAttempts messageIndex)) - pollAttempts)
         (drop messageIndex progressMessages)"
    by (rule poll_loop_stage_messages)
  show "length (stage_messages (snd (snd (snd (poll_loop env operation 0 1)))))
       = min (fst (snd (poll_loop env operation 0 1))) 4"
    by (simp add: poll_loop_stage_messages) (simp add: progressMessages_def)
qed

theorem stage_messages_run_out_witness:
  "fst (snd (poll_loop (service_done_at 7 (finished (Some [\<lparr>uri = Some ''link''\<rparr>])) (\<lambda>index a. delivers ''content'')) processing 0 1)) = 7
   \<and> stage_messages (snd (snd (snd (poll_loop (service_done_at 7 (finished (Some [\<lparr>uri = Some ''link''\<rparr>])) (\<lambda>index a. delivers ''content'')) processing 0 1))))
       = [''Storyboarding the scenes...'', ''Rendering frames with correct aspect ratio...'',
          ''Adding final touches...'', ''Almost there...'']"
proof -
  let ?env = "service_done_at 7 (finished (Some [\<lparr>uri = Some ''link''\<rparr>])) (\<lambda>index a. delivers ''content'')"
  have n: "fst (snd (poll_loop ?env processing 0 1)) = 7"
    by code_simp
  from stage_messages_run_out [of ?env processing 0 1] show ?thesis
    unfolding n by (simp add: progressMessages_def)
qed

text \<open>
  Claim C7, as the specification has it, fails: in a run with seven poll iterations, all
  successful, the iterations five to seven emit no message, and the last stage message
  appears once.
\<close>

theorem last_message_not_repeated_counterexample:
  "executeGeneration (service_done_at 7 (finished (Some [\<lparr>uri = Some ''link''\<rparr>])) (\<lambda>index a. delivers ''content'')) None
     = (Inr [''content''],
        [Progress ''Initializing Veo 3 model...'',
         Progress ''Sending request to Google Veo 3 API...'', Invoke,
         Progress ''Analyzing your prompt...'',
         Sleep 15000, Progress ''Storyboarding the scenes...'', Invoke,
         Sleep 15000, Progress ''Rendering frames with correct aspect ratio...'', Invoke,
         Sleep 15000, Progress ''Adding final touches...'', Invoke,
         Sleep 15000, Progress ''Almost there...'', Invoke,
         Sleep 15000, Invoke,
         Sleep 15000, Invoke,
         Sleep 15000, Invoke,
         Progress ''Downloading 1 generated video(s)...'', Invoke,
         Progress ''Video generation completed! Generated 1 video(s).''])"
  by code_simp

text \<open>
  Claim C1 at three videos of which the second cannot be fetched: its download answers
  500 in each of the six attempts of its retrier, the retrier throws, \<^verbatim>\<open>Promise.all\<close>
  rejects, and the job fails with the error of that download instead of returning the two
  other videos. A video that has no download link, by contrast, is dropped and the job
  returns the two others in their order.
\<close>

theorem exhausted_download_rejects_job:
  "fst (executeGeneration (service_done_at 1 (finished (Some (three_videos (Some ''link2'')))) second_fails) None)
     = Inl (new_Error ''Failed to download video 2: 500 Internal Server Error'')
   \<and> attempts (snd (download (service_done_at 1 (finished (Some (three_videos (Some ''link2'')))) second_fails) 1 \<lparr>uri = Some ''link2''\<rparr>)) = 6
   \<and> fst (executeGeneration (service_done_at 1 (finished (Some (three_videos None))) second_fails) None)
     = Inr [''ref1-content'', ''ref3-content'']"
  by code_simp


end
